theory Spec2Isabelle
  imports Complex_Main "HOL-Library.Sublist"
begin

section \<open>The Python primitives the chapter generator relies on\<close>

text \<open>
  A Python \<open>str\<close> is modelled as a HOL \<open>string\<close>, one \<open>char\<close> per code point, which
  covers the code points below 256. A Python \<open>int\<close> is an \<open>int\<close>. A Python \<open>float\<close> is
  the \<open>real\<close> it denotes: comparisons are exact, and every float operation \<open>+\<close>, \<open>-\<close>,
  \<open>*\<close>, \<open>/\<close>, every float literal and every conversion of an \<open>int\<close> to a float rounds
  its exact value with \<open>round64\<close> below. Infinities and NaN are not modelled: no result
  of the code modelled here leaves the range of the finite floats unless a time exceeds
  \<open>10 ^ 300\<close> seconds. The digit limit that recent interpreters put on conversions
  between \<open>int\<close> and \<open>str\<close> is not modelled. An exception is a value of \<open>py_error\<close>.
\<close>

datatype py_error = IndexError | ValueError | ZeroDivisionError | KeyError

subsection \<open>Characters and whitespace\<close>

definition py_isspace :: "char \<Rightarrow> bool" where
  "py_isspace c =
     (let n = (of_char c :: nat)
      in (9 \<le> n \<and> n \<le> 13) \<or> (28 \<le> n \<and> n \<le> 32) \<or> n = 133 \<or> n = 160)"

definition is_digit :: "char \<Rightarrow> bool" where
  "is_digit c = (48 \<le> (of_char c :: nat) \<and> (of_char c :: nat) \<le> 57)"

definition py_strip :: "string \<Rightarrow> string" where
  \<comment> \<open>\<open>s.strip()\<close>\<close>
  "py_strip s = rev (dropWhile py_isspace (rev (dropWhile py_isspace s)))"

definition int_isspace :: "char \<Rightarrow> bool" where
  \<comment> \<open>the whitespace that \<open>int(s)\<close> skips around the literal: tab to carriage return, the
      space, and U+0085 and U+00A0; unlike \<open>strip()\<close>, not U+001C to U+001F\<close>
  "int_isspace c =
     (let n = (of_char c :: nat)
      in (9 \<le> n \<and> n \<le> 13) \<or> n = 32 \<or> n = 133 \<or> n = 160)"

definition int_strip :: "string \<Rightarrow> string" where
  "int_strip s = rev (dropWhile int_isspace (rev (dropWhile int_isspace s)))"

subsection \<open>\<open>sep.join(parts)\<close> and \<open>s.split(sep)\<close>\<close>

fun py_join :: "string \<Rightarrow> string list \<Rightarrow> string" where
  "py_join sep [] = []"
| "py_join sep [w] = w"
| "py_join sep (w # v # ws) = w @ sep @ py_join sep (v # ws)"

function split_from :: "string \<Rightarrow> string \<Rightarrow> string \<Rightarrow> string list" where
  "split_from sep cur [] = [cur]"
| "split_from sep cur (c # cs) =
     (if sep \<noteq> [] \<and> prefix sep (c # cs)
      then cur # split_from sep [] (drop (length sep) (c # cs))
      else split_from sep (cur @ [c]) cs)"
  by pat_completeness auto
termination
  by (relation "measure (\<lambda>(sep, cur, s). length s)") auto

definition py_split :: "string \<Rightarrow> string \<Rightarrow> string list" where
  \<comment> \<open>\<open>s.split(sep)\<close> for a non-empty separator: cut at each occurrence, left to right\<close>
  "py_split sep s = split_from sep [] s"

subsection \<open>\<open>int(s)\<close> and the rendering of an \<open>int\<close>\<close>

definition digit_val :: "char \<Rightarrow> nat" where
  "digit_val c = of_char c - 48"

definition digits_value :: "string \<Rightarrow> nat" where
  "digits_value ds = foldl (\<lambda>a c. 10 * a + digit_val c) 0 ds"

fun int_body_ok :: "string \<Rightarrow> bool" where
  \<comment> \<open>decimal digits, with single underscores allowed between two digits\<close>
  "int_body_ok [] = False"
| "int_body_ok [c] = is_digit c"
| "int_body_ok (c # d # cs) =
     (is_digit c \<and>
      (if d = CHR ''_'' then cs \<noteq> [] \<and> is_digit (hd cs) \<and> int_body_ok cs
       else int_body_ok (d # cs)))"

definition py_int :: "string \<Rightarrow> int option" where
  \<comment> \<open>\<open>int(s)\<close>; \<open>None\<close> stands for the \<open>ValueError\<close>\<close>
  "py_int s =
     (let t = int_strip s;
          neg = (t \<noteq> [] \<and> hd t = CHR ''-'');
          body = (if t \<noteq> [] \<and> (hd t = CHR ''-'' \<or> hd t = CHR ''+'') then tl t else t)
      in if int_body_ok body
         then Some ((if neg then - 1 else 1) *
                    int (digits_value (filter (\<lambda>c. c \<noteq> CHR ''_'') body)))
         else None)"

definition digit_char :: "nat \<Rightarrow> char" where
  "digit_char d = ''0123456789'' ! d"

function str_nat :: "nat \<Rightarrow> string" where
  "str_nat n = (if n < 10 then [digit_char n] else str_nat (n div 10) @ [digit_char (n mod 10)])"
  by pat_completeness auto
termination
  by (relation "measure id") auto

declare str_nat.simps [simp del]

definition zfill :: "nat \<Rightarrow> string \<Rightarrow> string" where
  "zfill w s = replicate (w - length s) (CHR ''0'') @ s"

definition fmt02 :: "int \<Rightarrow> string" where
  \<comment> \<open>the format \<open>{i:02}\<close>: sign-aware zero padding to width 2\<close>
  "fmt02 i =
     (if i < 0 then CHR ''-'' # zfill 1 (str_nat (nat (- i))) else zfill 2 (str_nat (nat i)))"

section \<open>Float arithmetic\<close>

text \<open>
  A float is a binary64 value. \<open>round64 x\<close> is the float nearest to the real \<open>x\<close>, ties
  going to the even significand: with \<open>e\<close> the binary exponent of \<open>\<bar>x\<bar>\<close>, not below that
  of the subnormal range, the floats around \<open>x\<close> are the multiples of \<open>2 ^ (e - 52)\<close>.
\<close>

function floorlog2 :: "int \<Rightarrow> int" where
  \<comment> \<open>for \<open>n \<ge> 1\<close>, the \<open>k\<close> with \<open>2 ^ k \<le> n < 2 ^ (k + 1)\<close>\<close>
  "floorlog2 n = (if n < 2 then 0 else floorlog2 (n div 2) + 1)"
  by pat_completeness auto
termination
  by (relation "measure nat") auto

function ceillog2 :: "int \<Rightarrow> int" where
  \<comment> \<open>for \<open>n \<ge> 1\<close>, the least \<open>k\<close> with \<open>n \<le> 2 ^ k\<close>\<close>
  "ceillog2 n = (if n \<le> 1 then 0 else ceillog2 ((n + 1) div 2) + 1)"
  by pat_completeness auto
termination
  by (relation "measure nat") auto

declare floorlog2.simps [simp del]

declare ceillog2.simps [simp del]

definition float_exponent :: "real \<Rightarrow> int" where
  \<comment> \<open>for \<open>x > 0\<close>, the \<open>e\<close> with \<open>2 ^ e \<le> x < 2 ^ (e + 1)\<close>\<close>
  "float_exponent x = (if 1 \<le> x then floorlog2 \<lfloor>x\<rfloor> else - ceillog2 \<lceil>1 / x\<rceil>)"

definition pow2 :: "int \<Rightarrow> real" where
  "pow2 k = (if 0 \<le> k then 2 ^ nat k else 1 / 2 ^ nat (- k))"

definition round_half_even :: "real \<Rightarrow> int" where
  "round_half_even x =
     (let f = \<lfloor>x\<rfloor>; r = x - of_int f
      in if r < 1 / 2 then f else if 1 / 2 < r then f + 1 else if even f then f else f + 1)"

definition round64 :: "real \<Rightarrow> real" where
  "round64 x =
     (if x = 0 then 0
      else let e = max (float_exponent \<bar>x\<bar>) (- 1022);
               ulp = pow2 (e - 52)
           in sgn x * of_int (round_half_even (\<bar>x\<bar> / ulp)) * ulp)"

section \<open>The time formatter\<close>

text \<open>
  \<open>format_time\<close> is the formatter applied to an integer number of seconds,
  \<open>format_time_float\<close> the same code applied to a float: \<open>//\<close> is floor division,
  \<open>%\<close> the remainder with the sign of the divisor, and \<open>int\<close> truncates towards zero.
  On floats both are computed from \<open>fmod\<close>, which is exact, so no rounding appears here.
\<close>

definition format_time :: "int \<Rightarrow> string" where
  "format_time seconds =
     (let h = seconds div 3600;
          m = (seconds mod 3600) div 60;
          s = seconds mod 60
      in fmt02 h @ '':'' @ fmt02 m @ '':'' @ fmt02 s)"

definition float_floordiv :: "real \<Rightarrow> real \<Rightarrow> real" where
  "float_floordiv x y = of_int \<lfloor>x / y\<rfloor>"

definition float_mod :: "real \<Rightarrow> real \<Rightarrow> real" where
  "float_mod x y = x - y * of_int \<lfloor>x / y\<rfloor>"

definition int_of_float :: "real \<Rightarrow> int" where
  "int_of_float x = (if 0 \<le> x then \<lfloor>x\<rfloor> else \<lceil>x\<rceil>)"

definition format_time_float :: "real \<Rightarrow> string" where
  "format_time_float seconds =
     (let h = int_of_float (float_floordiv seconds 3600);
          m = int_of_float (float_floordiv (float_mod seconds 3600) 60);
          s = int_of_float (float_mod seconds 60)
      in fmt02 h @ '':'' @ fmt02 m @ '':'' @ fmt02 s)"

definition parse_hms :: "string \<Rightarrow> int option" where
  \<comment> \<open>\<open>h, m, s = map(int, ts.split(':'))\<close>, \<open>t = h * 3600 + m * 60 + s\<close>;
      \<open>None\<close> stands for any exception\<close>
  "parse_hms ts =
     (case map py_int (py_split '':'' ts) of
        [Some h, Some m, Some s] \<Rightarrow> Some (h * 3600 + m * 60 + s)
      | _ \<Rightarrow> None)"

definition py_str :: "int \<Rightarrow> string" where
  \<comment> \<open>\<open>str(i)\<close>, as an f-string renders an \<open>int\<close> with no format\<close>
  "py_str i = (if i < 0 then CHR ''-'' # str_nat (nat (- i)) else str_nat (nat i))"

fun py_contains :: "string \<Rightarrow> string \<Rightarrow> bool" where
  \<comment> \<open>\<open>sub in s\<close>\<close>
  "py_contains sub [] = (sub = [])"
| "py_contains sub (c # cs) = (prefix sub (c # cs) \<or> py_contains sub cs)"


fun slice_step :: "nat \<Rightarrow> 'a list \<Rightarrow> 'a list" where
  \<comment> \<open>\<open>xs[::step]\<close> for \<open>step \<ge> 1\<close>: the elements at indices 0, step, 2 * step, ...\<close>
  "slice_step step [] = []"
| "slice_step step (x # xs) = x # slice_step step (drop (step - 1) xs)"

section \<open>Transcripts and chapter candidates\<close>

record segment =
  seg_start :: real
  seg_text :: string

text \<open>
  A candidate is one object of the inference response; either key may be absent, which
  is what \<open>ch.get(key, default)\<close> and \<open>ch[key]\<close> tell apart.
\<close>

record candidate =
  timestamp :: "string option"
  title :: "string option"

section \<open>The Snapper: \<open>snap_timestamps_to_transcript\<close>\<close>

function bisect_loop :: "real list \<Rightarrow> real \<Rightarrow> nat \<Rightarrow> nat \<Rightarrow> nat" where
  "bisect_loop a x lo hi =
     (if lo < hi
      then (if x < a ! ((lo + hi) div 2)
            then bisect_loop a x lo ((lo + hi) div 2)
            else bisect_loop a x ((lo + hi) div 2 + 1) hi)
      else lo)"
  by pat_completeness auto
termination
  by (relation "measure (\<lambda>(a, x, lo, hi). hi - lo)") auto

declare bisect_loop.simps [simp del]

definition bisect_right :: "real list \<Rightarrow> real \<Rightarrow> nat" where
  \<comment> \<open>\<open>bisect.bisect_right(a, x)\<close> of the standard library, with \<open>lo = 0\<close>, \<open>hi = len(a)\<close>\<close>
  "bisect_right a x = bisect_loop a x 0 (length a)"

definition is_token_char :: "char \<Rightarrow> bool" where
  \<comment> \<open>the character class \<open>[A-Za-z0-9'\-]\<close>\<close>
  "is_token_char c =
     (let n = (of_char c :: nat)
      in (65 \<le> n \<and> n \<le> 90) \<or> (97 \<le> n \<and> n \<le> 122) \<or> (48 \<le> n \<and> n \<le> 57) \<or>
         n = 39 \<or> n = 45)"

function findall_tokens :: "string \<Rightarrow> string list" where
  \<comment> \<open>\<open>re.findall(r"[A-Za-z0-9'\-]+", s)\<close>: the maximal runs of class characters\<close>
  "findall_tokens [] = []"
| "findall_tokens (c # cs) =
     (if is_token_char c
      then (c # takeWhile is_token_char cs) # findall_tokens (dropWhile is_token_char cs)
      else findall_tokens cs)"
  by pat_completeness auto
termination
  by (relation "measure length") (auto simp: length_dropWhile_le less_Suc_eq_le)

definition title_or_default :: "string option \<Rightarrow> string" where
  \<comment> \<open>\<open>ch.get('title', 'Chapter')\<close>: the default stands in for an absent key only\<close>
  "title_or_default t = (case t of None \<Rightarrow> ''Chapter'' | Some s \<Rightarrow> s)"

definition normalize_title :: "string option \<Rightarrow> string" where
  \<comment> \<open>\<open>' '.join(re.findall(..., ch.get('title', 'Chapter')))[:120].strip()\<close>\<close>
  "normalize_title t =
     py_strip (take 120 (py_join '' '' (findall_tokens (title_or_default t))))"

definition parse_timestamp :: "string \<Rightarrow> int" where
  \<comment> \<open>the \<open>try\<close> block of the loop: any exception leaves \<open>t = 0\<close>\<close>
  "parse_timestamp ts = (case parse_hms ts of Some t \<Rightarrow> t | None \<Rightarrow> 0)"

definition snap_index :: "real list \<Rightarrow> int \<Rightarrow> nat" where
  \<comment> \<open>\<open>idx = bisect.bisect_right(starts, t) - 1\<close>, then \<open>if idx < 0: idx = 0\<close>\<close>
  "snap_index starts t =
     (let idx = int (bisect_right starts (of_int t)) - 1
      in nat (if idx < 0 then 0 else idx))"

definition snap_time :: "real list \<Rightarrow> int \<Rightarrow> py_error + real" where
  \<comment> \<open>\<open>snap = starts[idx]\<close>\<close>
  "snap_time starts t =
     (let idx = snap_index starts t
      in if idx < length starts then Inr (starts ! idx) else Inl IndexError)"

definition candidate_time :: "candidate \<Rightarrow> int" where
  \<comment> \<open>\<open>ts = ch.get('timestamp', '00:00:00')\<close> and its parse\<close>
  "candidate_time ch =
     parse_timestamp (case timestamp ch of None \<Rightarrow> ''00:00:00'' | Some s \<Rightarrow> s)"

definition snap_candidate :: "real list \<Rightarrow> candidate \<Rightarrow> py_error + (real \<times> string)" where
  \<comment> \<open>the body of the loop over the candidates\<close>
  "snap_candidate starts ch =
     (let ttl = normalize_title (title ch);
          t = candidate_time ch
      in case snap_time starts t of
           Inl e \<Rightarrow> Inl e
         | Inr snap \<Rightarrow> Inr (snap, ttl))"

fun snap_loop :: "real list \<Rightarrow> candidate list \<Rightarrow> py_error + (real \<times> string) list" where
  "snap_loop starts [] = Inr []"
| "snap_loop starts (ch # chs) =
     (case snap_candidate starts ch of
        Inl e \<Rightarrow> Inl e
      | Inr p \<Rightarrow> (case snap_loop starts chs of Inl e \<Rightarrow> Inl e | Inr ps \<Rightarrow> Inr (p # ps)))"

fun remove_seen :: "real set \<Rightarrow> (real \<times> string) list \<Rightarrow> (real \<times> string) list" where
  \<comment> \<open>the loop with the set \<open>seen\<close>: the first candidate of a snapped time is kept\<close>
  "remove_seen seen [] = []"
| "remove_seen seen ((t, ttl) # rest) =
     (if t \<in> seen then remove_seen seen rest
      else (t, ttl) # remove_seen (insert t seen) rest)"

definition snap_timestamps_to_transcript ::
  "candidate list \<Rightarrow> segment list \<Rightarrow> py_error + (real \<times> string) list" where
  "snap_timestamps_to_transcript chapters transcript =
     (let starts = map seg_start transcript
      in case snap_loop starts chapters of
           Inl e \<Rightarrow> Inl e
         | Inr aligned \<Rightarrow> Inr (sort_key fst (remove_seen {} aligned)))"

section \<open>The Sampler\<close>

text \<open>
  Every inference adapter starts with the same three lines; the sample size is a literal
  of the source (200 in \<open>main_enhanced\<close>, 300 in the structured generator, 150 to 500
  elsewhere) and is the parameter \<open>K\<close> here.
\<close>

definition sample_step :: "nat \<Rightarrow> nat \<Rightarrow> py_error + nat" where
  \<comment> \<open>\<open>sample_size = min(K, total_entries)\<close>, \<open>step = max(1, total_entries // sample_size)\<close>\<close>
  "sample_step K total_entries =
     (let sample_size = min K total_entries
      in if sample_size = 0 then Inl ZeroDivisionError
         else Inr (max 1 (total_entries div sample_size)))"

definition sample_transcript :: "nat \<Rightarrow> segment list \<Rightarrow> py_error + segment list" where
  \<comment> \<open>\<open>sampled_entries = transcript[::step]\<close>\<close>
  "sample_transcript K transcript =
     (case sample_step K (length transcript) of
        Inl e \<Rightarrow> Inl e
      | Inr step \<Rightarrow> Inr (slice_step step transcript))"

definition render_sample :: "segment list \<Rightarrow> string" where
  \<comment> \<open>one line \<open>[HH:MM:SS] text\<close> per retained segment\<close>
  "render_sample entries =
     concat (map (\<lambda>entry. ''['' @ format_time_float (seg_start entry) @ ''] '' @
                            seg_text entry @ [CHR 0x0A]) entries)"

section \<open>The Fallback Partitioner\<close>

subsection \<open>Flat layout: the time-based chapters of \<open>main_enhanced\<close>\<close>

fun min_by_key :: "('a \<Rightarrow> real) \<Rightarrow> 'a \<Rightarrow> 'a list \<Rightarrow> 'a" where
  \<comment> \<open>\<open>min(xs, key=key)\<close> on a non-empty list: the first element of least key\<close>
  "min_by_key key best [] = best"
| "min_by_key key best (x # xs) = min_by_key key (if key x < key best then x else best) xs"

definition target_chapters :: "real \<Rightarrow> nat" where
  \<comment> \<open>\<open>min(100, max(10, int(duration / 180)))\<close>\<close>
  "target_chapters duration =
     nat (min 100 (max 10 (int_of_float (round64 (duration / 180)))))"

definition chapter_length :: "real \<Rightarrow> real" where
  \<comment> \<open>\<open>duration / target_chapters\<close>\<close>
  "chapter_length duration = round64 (duration / real (target_chapters duration))"

definition closest_entry :: "segment list \<Rightarrow> real \<Rightarrow> py_error + segment" where
  \<comment> \<open>\<open>min(transcript, key=lambda x: abs(x['start'] - chapter_time))\<close>\<close>
  "closest_entry transcript chapter_time =
     (case transcript of
        [] \<Rightarrow> Inl ValueError
      | e # es \<Rightarrow> Inr (min_by_key (\<lambda>x. \<bar>round64 (seg_start x - chapter_time)\<bar>) e es))"

fun closest_entries :: "segment list \<Rightarrow> real \<Rightarrow> nat list \<Rightarrow> py_error + segment list" where
  \<comment> \<open>the entries chosen by the loop \<open>for i in range(1, target_chapters)\<close>, with
      \<open>chapter_time = i * chapter_length\<close>\<close>
  "closest_entries transcript len [] = Inr []"
| "closest_entries transcript len (i # is) =
     (case closest_entry transcript (round64 (real i * len)) of
        Inl e \<Rightarrow> Inl e
      | Inr c \<Rightarrow> (case closest_entries transcript len is of
                    Inl e \<Rightarrow> Inl e
                  | Inr cs \<Rightarrow> Inr (c # cs)))"





subsection \<open>Structured layout: \<open>create_fallback_structured_chapters\<close>\<close>

definition intro_end :: "real \<Rightarrow> real" where
  \<comment> \<open>\<open>min(duration * 0.05, 120)\<close>\<close>
  "intro_end duration = min (round64 (duration * round64 (5 / 100))) 120"

definition closing_start :: "real \<Rightarrow> real" where
  \<comment> \<open>\<open>max(duration - 60, duration * 0.95)\<close>\<close>
  "closing_start duration =
     max (round64 (duration - 60)) (round64 (duration * round64 (95 / 100)))"

definition question_length :: "real \<Rightarrow> int \<Rightarrow> real" where
  \<comment> \<open>\<open>question_duration = closing_start - intro_end\<close> and
      \<open>question_duration / structure['questions']\<close>, for a count that is not 0\<close>
  "question_length duration questions =
     round64 (round64 (closing_start duration - intro_end duration) /
              round64 (of_int questions))"

definition q_start :: "real \<Rightarrow> int \<Rightarrow> nat \<Rightarrow> real" where
  \<comment> \<open>\<open>intro_end + (i * question_length)\<close>\<close>
  "q_start duration questions i =
     round64 (intro_end duration +
              round64 (round64 (real i) * question_length duration questions))"

definition question_title :: "nat \<Rightarrow> string" where
  \<comment> \<open>\<open>f"Q{i+1}: Topic {i+1}"\<close>\<close>
  "question_title i = ''Q'' @ py_str (int i + 1) @ '': Topic '' @ py_str (int i + 1)"

definition create_fallback_structured_chapters ::
  "segment list \<Rightarrow> int \<Rightarrow> py_error + candidate list" where
  "create_fallback_structured_chapters transcript questions =
     (if transcript = [] then Inr []
      else let duration = seg_start (last transcript)
           in if questions = 0 then Inl ZeroDivisionError
              else Inr ([\<lparr>timestamp = Some ''00:00:00'', title = Some ''Introduction''\<rparr>] @
                        map (\<lambda>i. \<lparr>timestamp = Some (format_time_float (q_start duration questions i)),
                                  title = Some (question_title i)\<rparr>)
                            [0..<nat questions] @
                        [\<lparr>timestamp = Some (format_time_float (closing_start duration)),
                          title = Some ''Closing Remarks''\<rparr>]))"


section \<open>The Transcript Parser: \<open>parse_vtt\<close>\<close>

function strip_tags :: "string \<Rightarrow> string" where
  \<comment> \<open>\<open>re.sub(r'<[^>]+>', '', text)\<close>\<close>
  "strip_tags [] = []"
| "strip_tags (c # cs) =
     (if c = CHR ''<'' \<and> takeWhile (\<lambda>d. d \<noteq> CHR ''>'') cs \<noteq> [] \<and>
         dropWhile (\<lambda>d. d \<noteq> CHR ''>'') cs \<noteq> []
      then strip_tags (tl (dropWhile (\<lambda>d. d \<noteq> CHR ''>'') cs))
      else c # strip_tags cs)"
  by pat_completeness auto
termination
proof (relation "measure length")
  fix c :: char and cs :: string
  have "length (tl (dropWhile (\<lambda>d. d \<noteq> CHR ''>'') cs)) \<le>
        length (dropWhile (\<lambda>d. d \<noteq> CHR ''>'') cs)"
    by simp
  also have "\<dots> \<le> length cs" by (rule length_dropWhile_le)
  finally show "(tl (dropWhile (\<lambda>d. d \<noteq> CHR ''>'') cs), c # cs) \<in> measure length"
    by simp
qed simp_all

definition parse_start_time :: "string \<Rightarrow> py_error + real option" where
  \<comment> \<open>the two accepted forms of \<open>parts = start_time_str.split(':')\<close>, each with
      \<open>s, ms = s_ms.split('.')\<close>; \<open>Inr None\<close> is the \<open>continue\<close> of the \<open>else\<close> branch\<close>
  "parse_start_time start_time_str =
     (case py_split '':'' start_time_str of
        [h, m, s_ms] \<Rightarrow>
          (case py_split ''.'' s_ms of
             [s, ms] \<Rightarrow>
               (case (py_int h, py_int m, py_int s, py_int ms) of
                  (Some hv, Some mv, Some sv, Some msv) \<Rightarrow>
                    Inr (Some (round64 (round64 (of_int (hv * 3600 + mv * 60 + sv)) +
                                        round64 (of_int msv / 1000))))
                | _ \<Rightarrow> Inl ValueError)
           | _ \<Rightarrow> Inl ValueError)
      | [m, s_ms] \<Rightarrow>
          (case py_split ''.'' s_ms of
             [s, ms] \<Rightarrow>
               (case (py_int m, py_int s, py_int ms) of
                  (Some mv, Some sv, Some msv) \<Rightarrow>
                    Inr (Some (round64 (round64 (of_int (mv * 60 + sv)) +
                                        round64 (of_int msv / 1000))))
                | _ \<Rightarrow> Inl ValueError)
           | _ \<Rightarrow> Inl ValueError)
      | _ \<Rightarrow> Inr None)"

definition parse_cue :: "string \<Rightarrow> py_error + segment option" where
  \<comment> \<open>the body of the loop over the cues; \<open>Inr None\<close> is a cue that is skipped\<close>
  "parse_cue cue =
     (let ls = py_split [CHR 0x0A] (py_strip cue)
      in if 2 \<le> length ls \<and> py_contains ''-->'' (hd ls)
         then (let time_line = hd ls;
                   text_lines = tl ls;
                   start_time_str = hd (py_split '' --> '' time_line)
               in case parse_start_time start_time_str of
                    Inl e \<Rightarrow> Inl e
                  | Inr None \<Rightarrow> Inr None
                  | Inr (Some seconds) \<Rightarrow>
                      Inr (Some \<lparr>seg_start = seconds,
                                 seg_text = strip_tags (py_join '' '' text_lines)\<rparr>))
         else Inr None)"

fun parse_cues :: "string list \<Rightarrow> py_error + segment list" where
  "parse_cues [] = Inr []"
| "parse_cues (cue # cues) =
     (case parse_cue cue of
        Inl e \<Rightarrow> Inl e
      | Inr r \<Rightarrow> (case parse_cues cues of
                    Inl e \<Rightarrow> Inl e
                  | Inr segs \<Rightarrow> Inr ((case r of None \<Rightarrow> [] | Some seg \<Rightarrow> [seg]) @ segs)))"

definition parse_vtt :: "string \<Rightarrow> py_error + segment list" where
  \<comment> \<open>\<open>content\<close> is the text of the file; \<open>cues = re.split(r'\n\n', content.strip())\<close>\<close>
  "parse_vtt content = parse_cues (py_split [CHR 0x0A, CHR 0x0A] (py_strip content))"

section \<open>The pipelines\<close>







section \<open>Properties of the time formatter\<close>

lemma digit_cases: "d < 10 \<Longrightarrow> d \<in> {0, 1, 2, 3, 4, 5, 6, 7, 8, 9::nat}"
  by auto

lemma is_digit_digit_char: "d < 10 \<Longrightarrow> is_digit (digit_char d)"
  using digit_cases [of d] by (auto simp: is_digit_def digit_char_def)

lemma digit_val_digit_char: "d < 10 \<Longrightarrow> digit_val (digit_char d) = d"
  using digit_cases [of d] by (auto simp: digit_val_def digit_char_def)

lemma str_nat_digits: "c \<in> set (str_nat n) \<Longrightarrow> is_digit c"
proof (induction n rule: str_nat.induct)
  case (1 n)
  show ?case
  proof (cases "n < 10")
    case True
    with 1(2) show ?thesis by (simp add: str_nat.simps is_digit_digit_char)
  next
    case False
    with 1 show ?thesis
      by (subst (asm) (2) str_nat.simps) (auto simp add: is_digit_digit_char)
  qed
qed

lemma str_nat_nonempty: "str_nat n \<noteq> []"
  by (subst str_nat.simps) simp

lemma str_nat_length: "n < 100 \<Longrightarrow> length (str_nat n) \<le> 2"
  by (subst str_nat.simps, subst str_nat.simps) simp

lemma digits_value_snoc: "digits_value (ds @ [c]) = 10 * digits_value ds + digit_val c"
  by (simp add: digits_value_def)

lemma digits_value_str_nat: "digits_value (str_nat n) = n"
proof (induction n rule: str_nat.induct)
  case (1 n)
  show ?case
  proof (cases "n < 10")
    case True
    then show ?thesis by (simp add: str_nat.simps digits_value_def digit_val_digit_char)
  next
    case False
    with 1 show ?thesis
      by (subst str_nat.simps) (simp add: digits_value_snoc digit_val_digit_char)
  qed
qed

lemma digits_value_zeros: "digits_value (replicate k (CHR ''0'') @ ds) = digits_value ds"
proof -
  have "foldl (\<lambda>a c. 10 * a + digit_val c) 0 (replicate k (CHR ''0'')) = 0"
    by (induction k) (simp_all add: digit_val_def)
  then show ?thesis by (simp add: digits_value_def)
qed

lemma is_digit_not_space: "is_digit c \<Longrightarrow> \<not> int_isspace c"
  by (simp add: is_digit_def int_isspace_def Let_def)

lemma int_strip_digits: "\<forall>c \<in> set ds. is_digit c \<Longrightarrow> int_strip ds = ds"
proof (cases ds rule: rev_cases)
  case Nil
  then show ?thesis by (simp add: int_strip_def)
next
  case (snoc ys y)
  assume d: "\<forall>c \<in> set ds. is_digit c"
  show ?thesis
  proof (cases ds)
    case Nil
    then show ?thesis by (simp add: int_strip_def)
  next
    case (Cons z zs)
    with d have "\<not> int_isspace z" by (simp add: is_digit_not_space)
    with Cons have "dropWhile int_isspace ds = ds" by simp
    moreover from d snoc have "\<not> int_isspace y" by (simp add: is_digit_not_space)
    with snoc have "dropWhile int_isspace (rev ds) = rev ds" by simp
    ultimately show ?thesis by (simp add: int_strip_def)
  qed
qed

text \<open>
  \<open>int\<close> skips the whitespace of its own list around a literal, and refuses a separator
  character U+001C to U+001F, which \<open>strip()\<close> removes.
\<close>

lemma py_int_whitespace:
  "py_int ([CHR 0x85] @ ''5'') = Some 5 \<and> py_int (''5'' @ [CHR 0x0B]) = Some 5 \<and>
   py_int ([CHR 0x1C] @ ''5'') = None \<and> py_int (''5'' @ [CHR 0x1F]) = None \<and>
   py_strip ([CHR 0x1C] @ ''5'') = ''5''"
  by (simp add: py_int_def int_strip_def int_isspace_def py_strip_def py_isspace_def is_digit_def
      digits_value_def digit_val_def)

lemma int_body_ok_digits: "ds \<noteq> [] \<Longrightarrow> \<forall>c \<in> set ds. is_digit c \<Longrightarrow> int_body_ok ds"
proof (induction ds rule: int_body_ok.induct)
  case (3 c d cs)
  from 3(4) have "is_digit d" by simp
  then have "d \<noteq> CHR ''_''" by (auto simp: is_digit_def)
  with 3 show ?case by simp
qed simp_all

lemma py_int_digits:
  assumes "ds \<noteq> []" and "\<forall>c \<in> set ds. is_digit c"
  shows "py_int ds = Some (int (digits_value ds))"
proof -
  have s: "int_strip ds = ds" using assms(2) by (rule int_strip_digits)
  from assms have h: "is_digit (hd ds)" by (cases ds) simp_all
  then have sg: "hd ds \<noteq> CHR ''-''" "hd ds \<noteq> CHR ''+''" by (auto simp: is_digit_def)
  have f: "filter (\<lambda>c. c \<noteq> CHR ''_'') ds = ds"
    using assms(2) by (auto simp: filter_id_conv is_digit_def)
  show ?thesis
    using int_body_ok_digits [OF assms] by (simp add: py_int_def s sg f)
qed


lemma split_no_sep: "c \<notin> set a \<Longrightarrow> split_from [c] cur a = [cur @ a]"
  by (induction a arbitrary: cur) simp_all

lemma split_at_sep:
  "c \<notin> set a \<Longrightarrow> split_from [c] cur (a @ c # rest) = (cur @ a) # split_from [c] [] rest"
  by (induction a arbitrary: cur) simp_all

lemma fmt02_nonneg:
  assumes "0 \<le> i"
  shows "fmt02 i \<noteq> []" and "\<forall>c \<in> set (fmt02 i). is_digit c"
    and "digits_value (fmt02 i) = nat i" and "2 \<le> length (fmt02 i)"
    and "i < 100 \<Longrightarrow> length (fmt02 i) = 2"
proof -
  from assms have f: "fmt02 i = zfill 2 (str_nat (nat i))" by (simp add: fmt02_def)
  show "fmt02 i \<noteq> []" by (simp add: f zfill_def str_nat_nonempty)
  show "\<forall>c \<in> set (fmt02 i). is_digit c"
    by (auto simp: f zfill_def is_digit_def dest: str_nat_digits)
  show "digits_value (fmt02 i) = nat i"
    by (simp add: f zfill_def digits_value_zeros digits_value_str_nat)
  show "2 \<le> length (fmt02 i)" by (simp add: f zfill_def)
  show "length (fmt02 i) = 2" if "i < 100"
    using str_nat_length [of "nat i"] that assms by (simp add: f zfill_def)
qed

lemma py_int_fmt02: "0 \<le> i \<Longrightarrow> py_int (fmt02 i) = Some i"
  using py_int_digits [of "fmt02 i"] by (simp add: fmt02_nonneg)

lemma colon_not_digit: "is_digit c \<Longrightarrow> c \<noteq> CHR '':''"
  by (auto simp: is_digit_def)

lemma hms_total: "(s::int) div 3600 * 3600 + (s mod 3600) div 60 * 60 + s mod 60 = s"
proof -
  have c: "(s mod 3600) mod 60 = s mod 60" by (simp add: mod_mod_cancel)
  have "s mod 3600 = (s mod 3600) div 60 * 60 + (s mod 3600) mod 60" by simp
  with c have "(s mod 3600) div 60 * 60 + s mod 60 = s mod 3600" by simp
  then show ?thesis by (simp add: add.assoc)
qed

lemma minutes_bound: "0 \<le> ((s::int) mod 3600) div 60 \<and> (s mod 3600) div 60 < 100"
proof -
  have "0 \<le> s mod 3600" "s mod 3600 < 3600" by simp_all
  then show ?thesis by (simp add: pos_imp_zdiv_nonneg_iff)
qed

text \<open>
  Claim C9. For every non-negative integer number of seconds \<open>s\<close>, the formatter yields
  three fields of decimal digits joined by colons, the minutes and seconds of exactly two
  digits and the hours of at least two, the hours field reading \<open>s div 3600\<close> whatever
  its size; and re-parsing the text the way the Snapper does, as
  \<open>h * 3600 + m * 60 + sec\<close>, gives \<open>s\<close> back.
\<close>

theorem format_time_roundtrip:
  assumes "0 \<le> s"
  shows "\<exists>hh mm ss.
           format_time s = hh @ '':'' @ mm @ '':'' @ ss \<and>
           2 \<le> length hh \<and> length mm = 2 \<and> length ss = 2 \<and>
           (\<forall>c \<in> set (hh @ mm @ ss). is_digit c) \<and>
           py_int hh = Some (s div 3600) \<and>
           py_int mm = Some ((s mod 3600) div 60) \<and>
           py_int ss = Some (s mod 60) \<and>
           parse_hms (format_time s) = Some s"
proof -
  define h where "h = s div 3600"
  define m where "m = (s mod 3600) div 60"
  define r where "r = s mod 60"
  have h0: "0 \<le> h" using assms by (simp add: h_def pos_imp_zdiv_nonneg_iff)
  have m0: "0 \<le> m" "m < 100" using minutes_bound [of s] by (simp_all add: m_def)
  have r0: "0 \<le> r" "r < 100" using pos_mod_bound [of 60 s] by (simp_all add: r_def)
  have ft: "format_time s = fmt02 h @ '':'' @ fmt02 m @ '':'' @ fmt02 r"
    by (simp add: format_time_def h_def m_def r_def)
  have nc: "CHR '':'' \<notin> set (fmt02 h)" "CHR '':'' \<notin> set (fmt02 m)" "CHR '':'' \<notin> set (fmt02 r)"
    using fmt02_nonneg(2) [OF h0] fmt02_nonneg(2) [OF m0(1)] fmt02_nonneg(2) [OF r0(1)]
      colon_not_digit by blast+
  have sp: "py_split '':'' (format_time s) = [fmt02 h, fmt02 m, fmt02 r]"
    using nc by (simp add: py_split_def ft split_at_sep split_no_sep)
  have tot: "h * 3600 + m * 60 + r = s"
    unfolding h_def m_def r_def by (rule hms_total)
  have ph: "parse_hms (format_time s) = Some s"
    by (simp add: parse_hms_def sp py_int_fmt02 h0 m0 r0 tot)
  show ?thesis
    apply (rule exI [of _ "fmt02 h"], rule exI [of _ "fmt02 m"], rule exI [of _ "fmt02 r"])
    using ph fmt02_nonneg [OF h0] fmt02_nonneg [OF m0(1)] fmt02_nonneg [OF r0(1)] m0 r0 h0
    by (auto simp add: ft py_int_fmt02 h_def [symmetric] m_def [symmetric] r_def [symmetric])
qed

theorem format_time_roundtrip_witness:
  "format_time 360000 = ''100:00:00'' \<and> parse_hms (format_time 360000) = Some 360000"
  using format_time_roundtrip [of 360000]
  by (auto simp add: format_time_def fmt02_def zfill_def str_nat.simps digit_char_def)







section \<open>Properties of the Snapper\<close>

subsection \<open>The binary search\<close>

lemma bisect_loop_range:
  "lo \<le> hi \<Longrightarrow> lo \<le> bisect_loop a x lo hi \<and> bisect_loop a x lo hi \<le> hi"
proof (induction a x lo hi rule: bisect_loop.induct)
  case (1 a x lo hi)
  show ?case
  proof (cases "lo < hi")
    case True
    then have m: "lo \<le> (lo + hi) div 2" "(lo + hi) div 2 + 1 \<le> hi" by simp_all
    show ?thesis
    proof (cases "x < a ! ((lo + hi) div 2)")
      case True
      with \<open>lo < hi\<close> 1(1) m show ?thesis
        by (subst (1 2) bisect_loop.simps) simp
    next
      case False
      with \<open>lo < hi\<close> 1(2) m show ?thesis
        by (subst (1 2) bisect_loop.simps) simp
    qed
  next
    case False
    with 1(3) show ?thesis by (subst (1 2) bisect_loop.simps) simp
  qed
qed

lemma bisect_loop_left:
  "lo = 0 \<or> a ! (lo - 1) \<le> x \<Longrightarrow>
   bisect_loop a x lo hi = 0 \<or> a ! (bisect_loop a x lo hi - 1) \<le> x"
proof (induction a x lo hi rule: bisect_loop.induct)
  case (1 a x lo hi)
  show ?case
  proof (cases "lo < hi")
    case True
    show ?thesis
    proof (cases "x < a ! ((lo + hi) div 2)")
      case True
      with \<open>lo < hi\<close> 1(1) 1(3) show ?thesis
        by (subst (1 2) bisect_loop.simps) simp
    next
      case False
      with \<open>lo < hi\<close> 1(2) show ?thesis
        by (subst (1 2) bisect_loop.simps) simp
    qed
  next
    case False
    with 1(3) show ?thesis by (subst (1 2) bisect_loop.simps) simp
  qed
qed

lemma bisect_loop_right:
  "lo \<le> hi \<Longrightarrow> hi = length a \<or> x < a ! hi \<Longrightarrow>
   bisect_loop a x lo hi = length a \<or> x < a ! bisect_loop a x lo hi"
proof (induction a x lo hi rule: bisect_loop.induct)
  case (1 a x lo hi)
  show ?case
  proof (cases "lo < hi")
    case True
    then have m: "lo \<le> (lo + hi) div 2" "(lo + hi) div 2 + 1 \<le> hi" by simp_all
    show ?thesis
    proof (cases "x < a ! ((lo + hi) div 2)")
      case True
      with \<open>lo < hi\<close> 1(1) m show ?thesis
        by (subst (1 2) bisect_loop.simps) simp
    next
      case False
      with \<open>lo < hi\<close> 1(2) 1(4) m show ?thesis
        by (subst (1 2) bisect_loop.simps) simp
    qed
  next
    case False
    with 1(3,4) show ?thesis by (subst (1 2) bisect_loop.simps) simp
  qed
qed

lemma bisect_right_le: "bisect_right a x \<le> length a"
  using bisect_loop_range [of 0 "length a" a x] by (simp add: bisect_right_def)

lemma bisect_right_left: "bisect_right a x = 0 \<or> a ! (bisect_right a x - 1) \<le> x"
  using bisect_loop_left [of 0 a x "length a"] by (simp add: bisect_right_def)

lemma bisect_right_right: "bisect_right a x = length a \<or> x < a ! bisect_right a x"
  using bisect_loop_right [of 0 "length a" a x] by (simp add: bisect_right_def)

lemma snap_index_less: "starts \<noteq> [] \<Longrightarrow> snap_index starts t < length starts"
  using bisect_right_le [of starts "of_int t"] by (auto simp: snap_index_def Let_def)

lemma snap_index_cases:
  assumes "starts \<noteq> []"
  shows "(of_int t < hd starts \<and> snap_index starts t = 0) \<or>
         (starts ! snap_index starts t \<le> of_int t \<and>
          (\<forall>j. snap_index starts t < j \<and> j < length starts \<and> sorted starts \<longrightarrow> of_int t < starts ! j))"
proof (cases "bisect_right starts (of_int t) = 0")
  case True
  with bisect_right_right [of starts "of_int t"] assms
  have "of_int t < hd starts" by (auto simp: hd_conv_nth)
  with True show ?thesis by (simp add: snap_index_def)
next
  case False
  then have i: "snap_index starts t = bisect_right starts (of_int t) - 1"
    by (auto simp: snap_index_def Let_def)
  with False bisect_right_left [of starts "of_int t"]
  have le: "starts ! snap_index starts t \<le> of_int t" by simp
  have "of_int t < starts ! j"
    if j: "snap_index starts t < j" "j < length starts" and s: "sorted starts" for j
  proof -
    from j i False have "bisect_right starts (of_int t) \<le> j" by simp
    with s j(2) have "starts ! bisect_right starts (of_int t) \<le> starts ! j"
      by (simp add: sorted_nth_mono)
    moreover from \<open>bisect_right starts (of_int t) \<le> j\<close> j(2) bisect_right_right [of starts "of_int t"]
    have "of_int t < starts ! bisect_right starts (of_int t)" by auto
    ultimately show ?thesis by simp
  qed
  with le show ?thesis by blast
qed

lemma snap_time_nonempty:
  "starts \<noteq> [] \<Longrightarrow> snap_time starts t = Inr (starts ! snap_index starts t)"
  by (simp add: snap_time_def snap_index_less)

lemma snap_time_empty: "snap_time [] t = Inl IndexError"
  by (simp add: snap_time_def)

subsection \<open>The time given to one candidate\<close>

lemma parse_hms_Some:
  "parse_hms ts = Some t \<longleftrightarrow>
   (\<exists>h m s. map py_int (py_split '':'' ts) = [Some h, Some m, Some s] \<and> t = h * 3600 + m * 60 + s)"
  by (auto simp: parse_hms_def split: list.splits option.splits)

lemma parse_hms_malformed:
  assumes "length (py_split '':'' ts) \<noteq> 3 \<or> (\<exists>f \<in> set (py_split '':'' ts). py_int f = None)"
  shows "parse_hms ts = None"
proof (cases "parse_hms ts")
  case (Some t)
  then obtain h m s where e: "map py_int (py_split '':'' ts) = [Some h, Some m, Some s]"
    by (auto simp: parse_hms_Some)
  then have "length (py_split '':'' ts) = 3"
    by (metis length_map length_Cons list.size(3) numeral_3_eq_3)
  moreover have "\<forall>f \<in> set (py_split '':'' ts). py_int f \<noteq> None"
  proof
    fix f assume "f \<in> set (py_split '':'' ts)"
    then have "py_int f \<in> set (map py_int (py_split '':'' ts))" by simp
    with e show "py_int f \<noteq> None" by auto
  qed
  ultimately show ?thesis using assms by blast
qed simp

lemma snap_candidate_nonempty:
  "starts \<noteq> [] \<Longrightarrow>
   snap_candidate starts ch =
     Inr (starts ! snap_index starts (candidate_time ch), normalize_title (title ch))"
  by (simp add: snap_candidate_def snap_time_nonempty)

text \<open>
  Claim C4, as amended. For every candidate and every non-empty transcript (ascending or
  not), the Snapper gives the candidate a time that is the start of some segment; that
  time is at most the candidate's parsed time, unless the parsed time precedes the first
  segment's start, where the time may be the first segment's start instead.
\<close>

theorem snap_candidate_time:
  assumes "transcript \<noteq> []"
  shows "\<exists>snap ttl. snap_candidate (map seg_start transcript) ch = Inr (snap, ttl) \<and>
           snap \<in> seg_start ` set transcript \<and>
           (snap \<le> of_int (candidate_time ch) \<or>
            of_int (candidate_time ch) < seg_start (hd transcript) \<and>
            snap = seg_start (hd transcript))"
proof -
  let ?starts = "map seg_start transcript"
  let ?i = "snap_index ?starts (candidate_time ch)"
  from assms have ne: "?starts \<noteq> []" by simp
  have i: "?i < length ?starts" using ne by (rule snap_index_less)
  then have m: "?starts ! ?i \<in> seg_start ` set transcript"
    by (metis nth_mem set_map)
  have h: "hd ?starts = seg_start (hd transcript)" using assms by (simp add: hd_map)
  have "?starts ! ?i \<le> of_int (candidate_time ch) \<or>
        of_int (candidate_time ch) < seg_start (hd transcript) \<and>
        ?starts ! ?i = seg_start (hd transcript)"
    using snap_index_cases [OF ne, of "candidate_time ch"] ne
    by (auto simp: h hd_conv_nth simp del: hd_map)
  with m show ?thesis by (simp add: snap_candidate_nonempty [OF ne])
qed

theorem snap_candidate_time_witness:
  "[\<lparr>seg_start = 0, seg_text = ''intro''\<rparr>, \<lparr>seg_start = 60, seg_text = ''topic a''\<rparr>,
    \<lparr>seg_start = 125, seg_text = ''topic b''\<rparr>] \<noteq> [] \<and>
   snap_candidate
     (map seg_start [\<lparr>seg_start = 0, seg_text = ''intro''\<rparr>, \<lparr>seg_start = 60, seg_text = ''topic a''\<rparr>,
                     \<lparr>seg_start = 125, seg_text = ''topic b''\<rparr>])
     \<lparr>timestamp = Some ''00:01:10'', title = Some ''Topic A''\<rparr> = Inr (60, ''Topic A'') \<and>
   candidate_time \<lparr>timestamp = Some ''00:01:10'', title = Some ''Topic A''\<rparr> = 70"
  using snap_candidate_time [of "[\<lparr>seg_start = 0, seg_text = ''intro''\<rparr>, \<lparr>seg_start = 60, seg_text = ''topic a''\<rparr>,
    \<lparr>seg_start = 125, seg_text = ''topic b''\<rparr>]" "\<lparr>timestamp = Some ''00:01:10'', title = Some ''Topic A''\<rparr>"]
  by (simp add: snap_candidate_def snap_time_def snap_index_def bisect_right_def bisect_loop.simps
      candidate_time_def parse_timestamp_def parse_hms_def py_split_def py_int_def int_strip_def int_isspace_def py_strip_def
      py_isspace_def is_digit_def digits_value_def digit_val_def normalize_title_def
      title_or_default_def is_token_char_def)

text \<open>
  With a transcript whose first segment starts at 5 seconds, the candidate \<open>00:00:00\<close> is
  snapped to 5, which is later than its parsed time 0.
\<close>

theorem snap_exceeds_candidate_counterexample:
  "snap_candidate (map seg_start [\<lparr>seg_start = 5, seg_text = ''intro''\<rparr>])
     \<lparr>timestamp = Some ''00:00:00'', title = Some ''Intro''\<rparr> = Inr (5, ''Intro'') \<and>
   candidate_time \<lparr>timestamp = Some ''00:00:00'', title = Some ''Intro''\<rparr> = 0 \<and>
   \<not> (5 :: real) \<le> of_int (candidate_time \<lparr>timestamp = Some ''00:00:00'', title = Some ''Intro''\<rparr>)"
  by (simp add: snap_candidate_def snap_time_def snap_index_def bisect_right_def bisect_loop.simps
      candidate_time_def parse_timestamp_def parse_hms_def py_split_def py_int_def int_strip_def int_isspace_def py_strip_def
      py_isspace_def is_digit_def digits_value_def digit_val_def normalize_title_def
      title_or_default_def is_token_char_def)

text \<open>
  Claim C1, as amended. For every candidate and every non-empty transcript with ascending
  starts, the Snapper returns the start of the rightmost segment whose start is at most
  the candidate's parsed time, and the first segment's start when the parsed time
  precedes it. The parsed time is \<open>h * 3600 + m * 60 + s\<close> when the timestamp splits at
  its colons into three integer literals, and 0 when it has another number of fields or
  a field that is no integer literal.
\<close>

theorem snap_candidate_rightmost:
  assumes "transcript \<noteq> []" and "sorted (map seg_start transcript)"
  shows "(\<exists>i ttl. i < length transcript \<and>
            snap_candidate (map seg_start transcript) ch = Inr (seg_start (transcript ! i), ttl) \<and>
            (if of_int (candidate_time ch) < seg_start (hd transcript) then i = 0
             else seg_start (transcript ! i) \<le> of_int (candidate_time ch) \<and>
                  (\<forall>j. i < j \<and> j < length transcript \<longrightarrow>
                       of_int (candidate_time ch) < seg_start (transcript ! j)))) \<and>
         (\<forall>ts. timestamp ch = Some ts \<and>
               (length (py_split '':'' ts) \<noteq> 3 \<or> (\<exists>f \<in> set (py_split '':'' ts). py_int f = None))
               \<longrightarrow> candidate_time ch = 0) \<and>
         (\<forall>ts h m s. timestamp ch = Some ts \<and>
               map py_int (py_split '':'' ts) = [Some h, Some m, Some s]
               \<longrightarrow> candidate_time ch = h * 3600 + m * 60 + s)"
proof -
  let ?starts = "map seg_start transcript"
  let ?t = "candidate_time ch"
  let ?i = "snap_index ?starts ?t"
  from assms have ne: "?starts \<noteq> []" by simp
  have i: "?i < length transcript" using snap_index_less [OF ne] by simp
  have h: "hd ?starts = seg_start (hd transcript)" using assms by (simp add: hd_map)
  have nth: "?starts ! j = seg_start (transcript ! j)" if "j < length transcript" for j
    using that by simp
  have c: "if of_int ?t < seg_start (hd transcript) then ?i = 0
           else seg_start (transcript ! ?i) \<le> of_int ?t \<and>
                (\<forall>j. ?i < j \<and> j < length transcript \<longrightarrow> of_int ?t < seg_start (transcript ! j))"
  proof (cases "of_int ?t < seg_start (hd transcript)")
    case True
    have "?i = 0"
    proof (rule ccontr)
      assume n: "?i \<noteq> 0"
      with snap_index_cases [OF ne, of ?t] h True
      have "?starts ! ?i \<le> of_int ?t" by auto
      moreover have "?starts ! 0 \<le> ?starts ! ?i"
        using assms(2) i by (simp add: sorted_nth_mono del: nth_map)
      moreover have "?starts ! 0 = seg_start (hd transcript)"
        using ne h by (simp add: hd_conv_nth del: hd_map)
      ultimately show False using True by simp
    qed
    with True show ?thesis by simp
  next
    case False
    with snap_index_cases [OF ne, of ?t] h assms(2)
    have "?starts ! ?i \<le> of_int ?t"
      and "\<forall>j. ?i < j \<and> j < length ?starts \<longrightarrow> of_int ?t < ?starts ! j"
      by auto
    with False i show ?thesis by (simp add: nth)
  qed
  have first: "\<exists>i ttl. i < length transcript \<and>
            snap_candidate ?starts ch = Inr (seg_start (transcript ! i), ttl) \<and>
            (if of_int ?t < seg_start (hd transcript) then i = 0
             else seg_start (transcript ! i) \<le> of_int ?t \<and>
                  (\<forall>j. i < j \<and> j < length transcript \<longrightarrow> of_int ?t < seg_start (transcript ! j)))"
    apply (rule exI [of _ ?i], rule exI [of _ "normalize_title (title ch)"])
    using i c by (simp add: snap_candidate_nonempty [OF ne] nth)
  have second: "candidate_time ch = 0"
    if "timestamp ch = Some ts"
      and "length (py_split '':'' ts) \<noteq> 3 \<or> (\<exists>f \<in> set (py_split '':'' ts). py_int f = None)" for ts
    using that parse_hms_malformed [of ts] by (simp add: candidate_time_def parse_timestamp_def)
  have third: "candidate_time ch = h * 3600 + m * 60 + s"
    if "timestamp ch = Some ts" and "map py_int (py_split '':'' ts) = [Some h, Some m, Some s]"
    for ts h m s
    using that by (simp add: candidate_time_def parse_timestamp_def parse_hms_def)
  show ?thesis
  proof (intro conjI allI impI)
    show "\<exists>i ttl. i < length transcript \<and>
            snap_candidate ?starts ch = Inr (seg_start (transcript ! i), ttl) \<and>
            (if of_int ?t < seg_start (hd transcript) then i = 0
             else seg_start (transcript ! i) \<le> of_int ?t \<and>
                  (\<forall>j. i < j \<and> j < length transcript \<longrightarrow> of_int ?t < seg_start (transcript ! j)))"
      by (rule first)
  next
    fix ts
    assume "timestamp ch = Some ts \<and>
      (length (py_split '':'' ts) \<noteq> 3 \<or> (\<exists>f \<in> set (py_split '':'' ts). py_int f = None))"
    then show "candidate_time ch = 0" using second [of ts] by blast
  next
    fix ts h m s
    assume "timestamp ch = Some ts \<and> map py_int (py_split '':'' ts) = [Some h, Some m, Some s]"
    then have a: "timestamp ch = Some ts"
      and b: "map py_int (py_split '':'' ts) = [Some h, Some m, Some s]"
      by simp_all
    show "candidate_time ch = h * 3600 + m * 60 + s" by (rule third [OF a b])
  qed
qed

theorem snap_candidate_rightmost_witness:
  "[\<lparr>seg_start = 0, seg_text = ''intro''\<rparr>, \<lparr>seg_start = 60, seg_text = ''topic a''\<rparr>,
    \<lparr>seg_start = 300, seg_text = ''outro''\<rparr>] \<noteq> [] \<and>
   sorted (map seg_start [\<lparr>seg_start = 0, seg_text = ''intro''\<rparr>,
     \<lparr>seg_start = 60, seg_text = ''topic a''\<rparr>, \<lparr>seg_start = 300, seg_text = ''outro''\<rparr>]) \<and>
   snap_candidate
     (map seg_start [\<lparr>seg_start = 0, seg_text = ''intro''\<rparr>, \<lparr>seg_start = 60, seg_text = ''topic a''\<rparr>,
                     \<lparr>seg_start = 300, seg_text = ''outro''\<rparr>])
     \<lparr>timestamp = Some ''00:04:59'', title = Some ''Topic A''\<rparr> = Inr (60, ''Topic A'') \<and>
   candidate_time \<lparr>timestamp = Some ''00:04:59'', title = Some ''Topic A''\<rparr> = 299"
  using snap_candidate_rightmost [of "[\<lparr>seg_start = 0, seg_text = ''intro''\<rparr>,
    \<lparr>seg_start = 60, seg_text = ''topic a''\<rparr>, \<lparr>seg_start = 300, seg_text = ''outro''\<rparr>]"
    "\<lparr>timestamp = Some ''00:04:59'', title = Some ''Topic A''\<rparr>"]
  by (simp add: snap_candidate_def snap_time_def snap_index_def bisect_right_def bisect_loop.simps
      candidate_time_def parse_timestamp_def parse_hms_def py_split_def py_int_def int_strip_def int_isspace_def py_strip_def
      py_isspace_def is_digit_def digits_value_def digit_val_def normalize_title_def
      title_or_default_def is_token_char_def)

text \<open>
  With an empty transcript the Snapper returns no time for a candidate: reading
  \<open>starts[0]\<close> raises \<open>IndexError\<close>.
\<close>

theorem snap_empty_transcript_counterexample:
  "snap_candidate (map seg_start []) \<lparr>timestamp = Some ''00:00:00'', title = Some ''Intro''\<rparr>
     = Inl IndexError \<and>
   snap_timestamps_to_transcript [\<lparr>timestamp = Some ''00:00:00'', title = Some ''Intro''\<rparr>] []
     = Inl IndexError"
  by (simp add: snap_timestamps_to_transcript_def snap_candidate_def snap_time_def)

subsection \<open>Title normalisation\<close>

lemma token_not_space: "is_token_char c \<Longrightarrow> \<not> py_isspace c"
  by (auto simp: is_token_char_def py_isspace_def Let_def)

lemma takeWhile_all: "\<forall>c \<in> set (takeWhile P xs). P c"
  by (auto dest: set_takeWhileD)

lemma findall_tokens_tokens:
  "w \<in> set (findall_tokens s) \<Longrightarrow> w \<noteq> [] \<and> (\<forall>c \<in> set w. is_token_char c)"
proof (induction s rule: findall_tokens.induct)
  case 1
  then show ?case by simp
next
  case (2 c cs)
  show ?case
  proof (cases "is_token_char c")
    case True
    with 2(3) have "w = c # takeWhile is_token_char cs \<or>
                    w \<in> set (findall_tokens (dropWhile is_token_char cs))"
      by simp
    then show ?thesis
    proof
      assume "w = c # takeWhile is_token_char cs"
      with True takeWhile_all [of is_token_char cs] show ?thesis by simp
    next
      assume "w \<in> set (findall_tokens (dropWhile is_token_char cs))"
      then show ?thesis by (rule 2(1) [OF True])
    qed
  next
    case False
    with 2(3) have "w \<in> set (findall_tokens cs)" by simp
    then show ?thesis by (rule 2(2) [OF False])
  qed
qed

lemma findall_tokens_concat: "concat (findall_tokens s) = filter is_token_char s"
proof (induction s rule: findall_tokens.induct)
  case 1
  then show ?case by simp
next
  case (2 c cs)
  show ?case
  proof (cases "is_token_char c")
    case True
    have t: "filter is_token_char (takeWhile is_token_char cs) = takeWhile is_token_char cs"
      using takeWhile_all [of is_token_char cs] by (simp only: filter_id_conv)
    have "filter is_token_char cs =
          filter is_token_char (takeWhile is_token_char cs @ dropWhile is_token_char cs)"
      by (simp only: takeWhile_dropWhile_id)
    also have "\<dots> = takeWhile is_token_char cs @ filter is_token_char (dropWhile is_token_char cs)"
      by (simp only: filter_append t)
    finally have f: "filter is_token_char cs =
        takeWhile is_token_char cs @ filter is_token_char (dropWhile is_token_char cs)" .
    have "concat (findall_tokens (c # cs)) =
          c # takeWhile is_token_char cs @ concat (findall_tokens (dropWhile is_token_char cs))"
      using True by simp
    also have "\<dots> = c # takeWhile is_token_char cs @ filter is_token_char (dropWhile is_token_char cs)"
      by (simp only: 2(1) [OF True])
    also have "\<dots> = c # filter is_token_char cs" by (simp only: f [symmetric])
    finally show ?thesis using True by simp
  next
    case False
    with 2(2) show ?thesis by simp
  qed
qed

lemma findall_tokens_separators:
  "\<forall>c \<in> set sep. \<not> is_token_char c \<Longrightarrow> findall_tokens (sep @ s) = findall_tokens s"
  by (induction sep) simp_all

lemma findall_tokens_run:
  assumes "w \<noteq> []" and "\<forall>c \<in> set w. is_token_char c" and "rest = [] \<or> \<not> is_token_char (hd rest)"
  shows "findall_tokens (w @ rest) = w # findall_tokens rest"
proof -
  from assms(1) obtain c cs where w: "w = c # cs" by (cases w) auto
  with assms(2) have c: "is_token_char c" and cs: "\<forall>d \<in> set cs. is_token_char d" by simp_all
  from assms(3) have t: "takeWhile is_token_char (cs @ rest) = cs"
    using cs by (cases rest) (simp_all add: takeWhile_append2 takeWhile_eq_all_conv)
  from assms(3) have d: "dropWhile is_token_char (cs @ rest) = rest"
    using cs by (cases rest) (simp_all add: dropWhile_append2)
  show ?thesis using c by (simp add: w t d)
qed

lemma findall_tokens_decompose:
  assumes "\<forall>c \<in> set sep. \<not> is_token_char c" and "w \<noteq> []" and "\<forall>c \<in> set w. is_token_char c"
    and "rest = [] \<or> \<not> is_token_char (hd rest)"
  shows "findall_tokens (sep @ w @ rest) = w # findall_tokens rest"
  using assms by (simp add: findall_tokens_separators findall_tokens_run)

lemma py_join_chars: "c \<in> set (py_join sep ws) \<Longrightarrow> c \<in> set sep \<or> (\<exists>w \<in> set ws. c \<in> set w)"
  by (induction sep ws rule: py_join.induct) auto

lemma py_join_hd: "ws \<noteq> [] \<Longrightarrow> hd ws \<noteq> [] \<Longrightarrow> hd (py_join sep ws) = hd (hd ws)"
  by (induction sep ws rule: py_join.induct) simp_all

lemma py_join_nonempty: "ws \<noteq> [] \<Longrightarrow> hd ws \<noteq> [] \<Longrightarrow> py_join sep ws \<noteq> []"
  by (induction sep ws rule: py_join.induct) simp_all

lemma py_join_last:
  "ws \<noteq> [] \<Longrightarrow> \<forall>w \<in> set ws. w \<noteq> [] \<Longrightarrow> last (py_join sep ws) = last (last ws)"
proof (induction sep ws rule: py_join.induct)
  case (3 sep w v ws)
  then have "py_join sep (v # ws) \<noteq> []" by (simp add: py_join_nonempty)
  with 3 show ?case by simp
qed simp_all

lemma py_strip_subset: "set (py_strip s) \<subseteq> set s"
  by (auto simp: py_strip_def dest!: set_dropWhileD)

lemma py_strip_length: "length (py_strip s) \<le> length s"
proof -
  have "length (py_strip s) \<le> length (dropWhile py_isspace s)"
    by (simp add: py_strip_def length_dropWhile_le [of py_isspace "rev (dropWhile py_isspace s)", simplified])
  also have "\<dots> \<le> length s" by (rule length_dropWhile_le)
  finally show ?thesis .
qed

lemma rev_dropWhile_rev_prefix: "prefix (rev (dropWhile P (rev x))) x"
proof -
  have "rev x = takeWhile P (rev x) @ dropWhile P (rev x)" by simp
  then have "rev (rev x) = rev (takeWhile P (rev x) @ dropWhile P (rev x))" by simp
  then have "x = rev (dropWhile P (rev x)) @ rev (takeWhile P (rev x))"
    by (simp only: rev_rev_ident rev_append)
  then show ?thesis by (rule prefixI)
qed

lemma py_strip_trimmed:
  "py_strip s = [] \<or> (\<not> py_isspace (hd (py_strip s)) \<and> \<not> py_isspace (last (py_strip s)))"
proof (cases "py_strip s = []")
  case False
  let ?a = "dropWhile py_isspace s"
  let ?b = "dropWhile py_isspace (rev ?a)"
  have r: "py_strip s = rev ?b" by (simp add: py_strip_def)
  with False have b: "?b \<noteq> []" by simp
  have a: "?a \<noteq> []"
  proof
    assume e: "?a = []"
    have "?b = dropWhile py_isspace (rev [])" by (simp only: e)
    with b show False by simp
  qed
  have "\<not> py_isspace (hd ?b)" using b by (rule hd_dropWhile)
  then have l: "\<not> py_isspace (last (py_strip s))" using b by (simp add: r last_rev)
  have "prefix (rev ?b) ?a" by (rule rev_dropWhile_rev_prefix)
  then obtain z where "?a = rev ?b @ z" by (rule prefixE)
  with b have "hd (rev ?b) = hd ?a"
    using hd_append2 [of "rev ?b" z] by simp
  moreover have "\<not> py_isspace (hd ?a)" using a by (rule hd_dropWhile)
  ultimately show ?thesis using l by (simp add: r)
qed simp

lemma py_strip_prefix: "s = [] \<or> \<not> py_isspace (hd s) \<Longrightarrow> prefix (py_strip s) s"
proof -
  assume "s = [] \<or> \<not> py_isspace (hd s)"
  then have "dropWhile py_isspace s = s" by (cases s) auto
  then show ?thesis by (simp add: py_strip_def rev_dropWhile_rev_prefix)
qed

lemma py_strip_id:
  "s = [] \<or> (\<not> py_isspace (hd s) \<and> \<not> py_isspace (last s)) \<Longrightarrow> py_strip s = s"
proof -
  assume h: "s = [] \<or> (\<not> py_isspace (hd s) \<and> \<not> py_isspace (last s))"
  then have a: "dropWhile py_isspace s = s" by (cases s) auto
  from h have "dropWhile py_isspace (rev s) = rev s"
    by (cases s rule: rev_cases) auto
  with a show ?thesis by (simp add: py_strip_def)
qed

lemma tokens_join_trimmed:
  assumes "ws \<noteq> []" and "\<forall>w \<in> set ws. w \<noteq> [] \<and> (\<forall>c \<in> set w. is_token_char c)"
  shows "py_join sep ws \<noteq> []"
    and "\<not> py_isspace (hd (py_join sep ws))"
    and "\<not> py_isspace (last (py_join sep ws))"
proof -
  from assms have h: "hd ws \<noteq> []" "last ws \<noteq> []" by simp_all
  from assms have a: "\<forall>w \<in> set ws. w \<noteq> []" by simp
  show "py_join sep ws \<noteq> []" using assms(1) h(1) by (rule py_join_nonempty)
  have "hd (hd ws) \<in> set (hd ws)" "last (last ws) \<in> set (last ws)" using h by simp_all
  moreover have "hd ws \<in> set ws" "last ws \<in> set ws" using assms(1) by simp_all
  ultimately have "is_token_char (hd (hd ws))" "is_token_char (last (last ws))"
    using assms(2) by blast+
  then show "\<not> py_isspace (hd (py_join sep ws))" "\<not> py_isspace (last (py_join sep ws))"
    using py_join_hd [OF assms(1) h(1), of sep] py_join_last [OF assms(1) a, of sep]
    by (simp_all add: token_not_space)
qed

lemma findall_tokens_none: "\<forall>c \<in> set s. \<not> is_token_char c \<Longrightarrow> findall_tokens s = []"
  using findall_tokens_separators [of s "[]"] by simp

text \<open>
  Claim C5, as amended. For every candidate title, the normalisation keeps exactly the
  word tokens of the title, the maximal runs of alphanumerics, apostrophes and hyphens,
  in their order; it joins them with single spaces, truncates the result to at most 120
  characters and trims surrounding whitespace, which leaves a prefix of the joined text
  and the whole of it when that has at most 120 characters. A candidate with no title
  field receives the placeholder \<open>Chapter\<close>; a candidate whose title is empty, or has no
  token character at all, receives the empty title.
\<close>

theorem normalize_title_tokens:
  "(\<forall>w \<in> set (findall_tokens (title_or_default t)). w \<noteq> [] \<and> (\<forall>c \<in> set w. is_token_char c)) \<and>
   concat (findall_tokens (title_or_default t)) = filter is_token_char (title_or_default t) \<and>
   (\<forall>sep w rest. title_or_default t = sep @ w @ rest \<and> (\<forall>c \<in> set sep. \<not> is_token_char c) \<and>
        w \<noteq> [] \<and> (\<forall>c \<in> set w. is_token_char c) \<and> (rest = [] \<or> \<not> is_token_char (hd rest))
        \<longrightarrow> findall_tokens (title_or_default t) = w # findall_tokens rest) \<and>
   normalize_title t = py_strip (take 120 (py_join '' '' (findall_tokens (title_or_default t)))) \<and>
   prefix (normalize_title t) (py_join '' '' (findall_tokens (title_or_default t))) \<and>
   (length (py_join '' '' (findall_tokens (title_or_default t))) \<le> 120 \<longrightarrow>
      normalize_title t = py_join '' '' (findall_tokens (title_or_default t))) \<and>
   length (normalize_title t) \<le> 120 \<and>
   (normalize_title t = [] \<or>
      (\<not> py_isspace (hd (normalize_title t)) \<and> \<not> py_isspace (last (normalize_title t)))) \<and>
   (t = None \<longrightarrow> normalize_title t = ''Chapter'') \<and>
   (\<forall>s. t = Some s \<and> (\<forall>c \<in> set s. \<not> is_token_char c) \<longrightarrow> normalize_title t = [])"
proof -
  let ?s = "title_or_default t"
  let ?ws = "findall_tokens ?s"
  let ?j = "py_join '' '' ?ws"
  have tok: "\<forall>w \<in> set ?ws. w \<noteq> [] \<and> (\<forall>c \<in> set w. is_token_char c)"
    using findall_tokens_tokens by blast
  have cat: "concat ?ws = filter is_token_char ?s" by (rule findall_tokens_concat)
  have dec: "\<forall>sep w rest. ?s = sep @ w @ rest \<and> (\<forall>c \<in> set sep. \<not> is_token_char c) \<and>
        w \<noteq> [] \<and> (\<forall>c \<in> set w. is_token_char c) \<and> (rest = [] \<or> \<not> is_token_char (hd rest))
        \<longrightarrow> ?ws = w # findall_tokens rest"
  proof (intro allI impI)
    fix sep w rest
    assume a: "?s = sep @ w @ rest \<and> (\<forall>c \<in> set sep. \<not> is_token_char c) \<and>
        w \<noteq> [] \<and> (\<forall>c \<in> set w. is_token_char c) \<and> (rest = [] \<or> \<not> is_token_char (hd rest))"
    then have "findall_tokens (sep @ w @ rest) = w # findall_tokens rest"
      by (intro findall_tokens_decompose) simp_all
    with a show "?ws = w # findall_tokens rest" by simp
  qed
  have def: "normalize_title t = py_strip (take 120 ?j)" by (simp add: normalize_title_def)
  have hdj: "?j = [] \<or> (\<not> py_isspace (hd ?j) \<and> \<not> py_isspace (last ?j))"
  proof (cases "?ws = []")
    case True
    then show ?thesis by simp
  next
    case False
    then show ?thesis using tokens_join_trimmed [OF False tok, of "'' ''"] by simp
  qed
  have "take 120 ?j = [] \<or> \<not> py_isspace (hd (take 120 ?j))"
    using hdj by (cases ?j) auto
  then have "prefix (py_strip (take 120 ?j)) (take 120 ?j)" by (rule py_strip_prefix)
  then have pre: "prefix (normalize_title t) ?j"
    unfolding def using take_is_prefix [of 120 ?j] by (rule prefix_order.trans)
  have short: "length ?j \<le> 120 \<longrightarrow> normalize_title t = ?j"
  proof
    assume "length ?j \<le> 120"
    then have "take 120 ?j = ?j" by simp
    then show "normalize_title t = ?j" using py_strip_id [OF hdj] by (simp add: def)
  qed
  have "length (normalize_title t) \<le> length (take 120 ?j)"
    unfolding def by (rule py_strip_length)
  then have len: "length (normalize_title t) \<le> 120" by simp
  have trim: "normalize_title t = [] \<or>
      (\<not> py_isspace (hd (normalize_title t)) \<and> \<not> py_isspace (last (normalize_title t)))"
    unfolding def by (rule py_strip_trimmed)
  have none: "t = None \<longrightarrow> normalize_title t = ''Chapter''"
    by (simp add: normalize_title_def title_or_default_def is_token_char_def py_strip_def
        py_isspace_def)
  have empty: "\<forall>s. t = Some s \<and> (\<forall>c \<in> set s. \<not> is_token_char c) \<longrightarrow> normalize_title t = []"
    by (auto simp: normalize_title_def title_or_default_def findall_tokens_none py_strip_def)
  from tok cat dec def pre short len trim none empty show ?thesis by blast
qed

theorem normalize_title_tokens_witness:
  "normalize_title (Some ''What is  this?? (test) -- don't stop!'') = ''What is this test -- don't stop'' \<and>
   length (normalize_title (Some ''What is  this?? (test) -- don't stop!'')) \<le> 120"
proof -
  have "length (normalize_title (Some ''What is  this?? (test) -- don't stop!'')) \<le> 120"
    using normalize_title_tokens [of "Some ''What is  this?? (test) -- don't stop!''"] by blast
  moreover have "normalize_title (Some ''What is  this?? (test) -- don't stop!'') =
      ''What is this test -- don't stop''"
    by (simp add: normalize_title_def title_or_default_def is_token_char_def py_strip_def
        py_isspace_def)
  ultimately show ?thesis by simp
qed

text \<open>
  A candidate whose title is the empty string keeps an empty title: the placeholder is the
  default of \<open>ch.get\<close> and stands in for an absent key only.
\<close>

theorem empty_title_counterexample:
  "title \<lparr>timestamp = Some ''00:00:00'', title = Some ''''\<rparr> = Some '''' \<and>
   normalize_title (title \<lparr>timestamp = Some ''00:00:00'', title = Some ''''\<rparr>) = '''' \<and>
   normalize_title (title \<lparr>timestamp = Some ''00:00:00'', title = Some ''''\<rparr>) \<noteq> ''Chapter''"
  by (simp add: normalize_title_def title_or_default_def py_strip_def)

section \<open>Properties of the Sampler\<close>

lemma slice_step_length:
  "1 \<le> step \<Longrightarrow> length (slice_step step xs) = (length xs + step - 1) div step"
proof (induction step xs rule: slice_step.induct)
  case (1 step)
  then show ?case by simp
next
  case (2 step x xs)
  have "(length (drop (step - 1) xs) + step - 1) div step = length xs div step"
  proof (cases "step - 1 \<le> length xs")
    case True
    with 2(2) show ?thesis by simp
  next
    case False
    with 2(2) show ?thesis by simp
  qed
  moreover have "(length (x # xs) + step - 1) div step = Suc (length xs div step)"
    using 2(2) by simp
  ultimately show ?case using 2 by simp
qed

lemma slice_step_nth:
  "1 \<le> step \<Longrightarrow> i * step < length xs \<Longrightarrow>
   i < length (slice_step step xs) \<and> slice_step step xs ! i = xs ! (i * step)"
proof (induction step xs arbitrary: i rule: slice_step.induct)
  case (1 step)
  then show ?case by simp
next
  case (2 step x xs)
  show ?case
  proof (cases i)
    case 0
    then show ?thesis by simp
  next
    case (Suc j)
    with 2(3) have lt: "j * step + step < Suc (length xs)" by (simp add: add.commute)
    with 2(2) have "j * step < length (drop (step - 1) xs)" by simp
    from 2(1) [OF 2(2) this]
    have j: "j < length (slice_step step (drop (step - 1) xs))"
      and e: "slice_step step (drop (step - 1) xs) ! j = drop (step - 1) xs ! (j * step)"
      by simp_all
    from lt 2(2) have "drop (step - 1) xs ! (j * step) = xs ! (step - 1 + j * step)"
      by simp
    moreover from 2(2) have "(x # xs) ! (Suc j * step) = xs ! (step - 1 + j * step)"
      by (cases step) (simp_all add: add_ac)
    ultimately show ?thesis using j e Suc by simp
  qed
qed

lemma slice_step_subseq: "subseq (slice_step step xs) xs"
proof (induction step xs rule: slice_step.induct)
  case (1 step)
  then show ?case by simp
next
  case (2 step x xs)
  have "subseq (drop (step - 1) xs) xs"
    by (rule suffix_imp_subseq) (rule suffix_drop)
  with 2 have "subseq (slice_step step (drop (step - 1) xs)) xs"
    by (rule subseq_order.trans)
  then show ?case by simp
qed

lemma slice_step_one: "slice_step (Suc 0) xs = xs"
  by (induction xs) simp_all

lemma sample_step_nonempty:
  "1 \<le> K \<Longrightarrow> 1 \<le> n \<Longrightarrow> sample_step K n = Inr (max 1 (n div K))"
  by (cases "K \<le> n") (simp_all add: sample_step_def min_def max_def)

lemma sample_count_bound:
  fixes K n :: nat
  assumes "1 \<le> K" and "1 \<le> n"
  shows "(n + max 1 (n div K) - 1) div max 1 (n div K) < 2 * K"
proof (cases "n < K")
  case True
  then show ?thesis by simp
next
  case False
  define s where "s = n div K"
  from False assms have s1: "1 \<le> s" by (simp add: s_def div_greater_zero_iff Suc_le_eq)
  have "n < K * (s + 1)"
    unfolding s_def using assms(1) dividend_less_times_div [of K n] by (simp add: algebra_simps)
  moreover have "K + s \<le> K * s + 1"
    using assms(1) s1 by (cases K; cases s) simp_all
  moreover have "K * (s + 1) = K * s + K" "2 * K * s = K * s + K * s" by (simp_all add: algebra_simps)
  ultimately have "n + s - 1 < 2 * K * s" using s1 by linarith
  then have "(n + s - 1) div s < 2 * K"
    using s1 by (simp add: div_less_iff_less_mult)
  with s1 show ?thesis by (simp add: s_def max_def)
qed

lemma sample_transcript_empty: "sample_transcript K [] = Inl ZeroDivisionError"
  by (simp add: sample_transcript_def sample_step_def)

lemma stride_index_in_range:
  fixes n s i :: nat
  assumes "i < (n + s - 1) div s" and "1 \<le> s"
  shows "i * s < n"
proof -
  from assms(1) have "Suc i \<le> (n + s - 1) div s" by simp
  then have "Suc i * s \<le> (n + s - 1) div s * s" by (rule mult_le_mono1)
  also have "\<dots> \<le> n + s - 1" by (rule div_times_less_eq_dividend)
  finally show ?thesis using assms(2) by simp
qed

text \<open>
  Claim C8, as amended. For every non-empty transcript and every sample size \<open>K \<ge> 1\<close>,
  the Sampler retains exactly every stride-th segment starting at index 0, with stride
  \<open>max 1 (total div K)\<close>: its output is an order-preserving subsequence of the transcript
  that includes the first segment and has \<open>\<lceil>total / stride\<rceil>\<close> segments, which is
  fewer than \<open>2 * K\<close>.
\<close>

theorem sample_transcript_stride:
  assumes "transcript \<noteq> []" and "1 \<le> K"
  shows "\<exists>sampled.
           sample_transcript K transcript = Inr sampled \<and>
           length sampled =
             (length transcript + max 1 (length transcript div K) - 1) div
               max 1 (length transcript div K) \<and>
           (\<forall>i < length sampled. sampled ! i = transcript ! (i * max 1 (length transcript div K))) \<and>
           (\<forall>j < length transcript. max 1 (length transcript div K) dvd j \<longrightarrow>
               j div max 1 (length transcript div K) < length sampled) \<and>
           subseq sampled transcript \<and> sampled \<noteq> [] \<and> hd sampled = hd transcript \<and>
           length sampled \<le> length transcript \<and> length sampled < 2 * K"
proof -
  define n where "n = length transcript"
  define s where "s = max 1 (n div K)"
  define sampled where "sampled = slice_step s transcript"
  from assms(1) have n1: "1 \<le> n" by (cases transcript) (simp_all add: n_def)
  have s1: "1 \<le> s" by (simp add: s_def)
  have run: "sample_transcript K transcript = Inr sampled"
    using sample_step_nonempty [OF assms(2) n1]
    by (simp add: sample_transcript_def sampled_def s_def n_def)
  have len: "length sampled = (n + s - 1) div s"
    unfolding sampled_def n_def using s1 by (rule slice_step_length)
  have nth: "\<forall>i < length sampled. sampled ! i = transcript ! (i * s)"
  proof (intro allI impI)
    fix i assume "i < length sampled"
    then have "i * s < n" using s1 by (simp add: len stride_index_in_range)
    then show "sampled ! i = transcript ! (i * s)"
      using slice_step_nth [OF s1, of i transcript] by (simp add: sampled_def n_def)
  qed
  have all: "\<forall>j < length transcript. s dvd j \<longrightarrow> j div s < length sampled"
  proof (intro allI impI)
    fix j assume j: "j < length transcript" and d: "s dvd j"
    then have "j div s * s < length transcript" by simp
    then show "j div s < length sampled"
      using slice_step_nth [OF s1, of "j div s" transcript] by (simp add: sampled_def)
  qed
  have sub: "subseq sampled transcript" unfolding sampled_def by (rule slice_step_subseq)
  have ne: "sampled \<noteq> []" using assms(1) by (cases transcript) (simp_all add: sampled_def)
  have hd: "hd sampled = hd transcript"
    using assms(1) by (cases transcript) (simp_all add: sampled_def)
  have le: "length sampled \<le> length transcript" using sub by (rule list_emb_length)
  have lt: "length sampled < 2 * K"
    using sample_count_bound [OF assms(2) n1] by (simp add: len s_def)
  from run len nth all sub ne hd le lt show ?thesis
    unfolding s_def n_def by blast
qed

theorem sample_transcript_stride_witness:
  "[\<lparr>seg_start = 0, seg_text = ''a''\<rparr>, \<lparr>seg_start = 1, seg_text = ''b''\<rparr>,
    \<lparr>seg_start = 2, seg_text = ''c''\<rparr>, \<lparr>seg_start = 3, seg_text = ''d''\<rparr>,
    \<lparr>seg_start = 4, seg_text = ''e''\<rparr>] \<noteq> [] \<and> (1::nat) \<le> 2 \<and>
   sample_transcript 2
     [\<lparr>seg_start = 0, seg_text = ''a''\<rparr>, \<lparr>seg_start = 1, seg_text = ''b''\<rparr>,
      \<lparr>seg_start = 2, seg_text = ''c''\<rparr>, \<lparr>seg_start = 3, seg_text = ''d''\<rparr>,
      \<lparr>seg_start = 4, seg_text = ''e''\<rparr>] =
     Inr [\<lparr>seg_start = 0, seg_text = ''a''\<rparr>, \<lparr>seg_start = 2, seg_text = ''c''\<rparr>,
          \<lparr>seg_start = 4, seg_text = ''e''\<rparr>]"
proof -
  let ?tr = "[\<lparr>seg_start = 0, seg_text = ''a''\<rparr>, \<lparr>seg_start = 1, seg_text = ''b''\<rparr>,
    \<lparr>seg_start = 2, seg_text = ''c''\<rparr>, \<lparr>seg_start = 3, seg_text = ''d''\<rparr>,
    \<lparr>seg_start = 4, seg_text = ''e''\<rparr>]"
  have h1: "?tr \<noteq> []" by simp
  have h2: "(1::nat) \<le> 2" by simp
  from sample_transcript_stride [OF h1 h2] obtain sampled
    where r: "sample_transcript 2 ?tr = Inr sampled" and "subseq sampled ?tr"
    by blast
  have "sample_transcript 2 ?tr =
        Inr [\<lparr>seg_start = 0, seg_text = ''a''\<rparr>, \<lparr>seg_start = 2, seg_text = ''c''\<rparr>,
             \<lparr>seg_start = 4, seg_text = ''e''\<rparr>]"
    by code_simp
  with r h1 h2 show ?thesis by simp
qed

text \<open>
  With the sample size 200 of \<open>main_enhanced\<close> and a transcript of 399 segments the
  stride is 1, and all 399 segments are retained.
\<close>

theorem sample_exceeds_size_counterexample:
  "map_sum id length
     (sample_transcript 200 (replicate 399 \<lparr>seg_start = 0, seg_text = ''um''\<rparr>)) = Inr 399 \<and>
   \<not> (399::nat) \<le> 200"
  by (simp add: sample_transcript_def sample_step_def slice_step_one)

section \<open>Properties of the Transcript Parser\<close>

lemma parse_start_time_other_field_count:
  "length (py_split '':'' t) \<noteq> 3 \<Longrightarrow> length (py_split '':'' t) \<noteq> 2 \<Longrightarrow>
   parse_start_time t = Inr None"
  by (auto simp: parse_start_time_def split: list.splits)

lemma parse_start_time_raises:
  "py_split '':'' t = [h, m, s_ms] \<Longrightarrow> length (py_split ''.'' s_ms) \<noteq> 2 \<Longrightarrow>
   parse_start_time t = Inl ValueError"
  by (auto simp: parse_start_time_def split: list.splits)

lemma parse_vtt_skips_untimed:
  "parse_vtt (''WEBVTT'' @ [CHR 0x0A, CHR 0x0A] @
              ''00:00:01.000 --> 00:00:02.000'' @ [CHR 0x0A] @ ''hello'' @ [CHR 0x0A, CHR 0x0A] @
              ''3 --> 4'' @ [CHR 0x0A] @ ''world'') =
   Inr [\<lparr>seg_start = 1, seg_text = ''hello''\<rparr>]"
  by code_simp

text \<open>
  Claim C6 says that a cue whose time value is not in the accepted forms is skipped and
  parsing continues. The parser skips a start time with one field or with four or more,
  but a start time with two or three colon-separated fields whose numbers do not parse
  raises \<open>ValueError\<close> out of \<open>parse_vtt\<close>: here the second cue writes its milliseconds
  after a comma, \<open>s, ms = s_ms.split('.')\<close> fails to unpack, and the first, valid cue is
  lost with the whole parse.
\<close>

theorem parse_vtt_malformed_time_raises:
  "parse_vtt (''WEBVTT'' @ [CHR 0x0A, CHR 0x0A] @
              ''00:00:01.000 --> 00:00:02.000'' @ [CHR 0x0A] @ ''hello'' @ [CHR 0x0A, CHR 0x0A] @
              ''00:00:03,000 --> 00:00:04,000'' @ [CHR 0x0A] @ ''world'') = Inl ValueError"
  by (simp add: parse_vtt_def parse_cue_def parse_start_time_def py_split_def py_strip_def
      py_isspace_def py_int_def int_strip_def int_isspace_def is_digit_def digits_value_def digit_val_def)


section \<open>Evaluating float arithmetic\<close>

lemmas round64_eval = round64_def float_exponent_def ceillog2.simps floorlog2.simps pow2_def
  round_half_even_def Let_def

lemmas format_eval = format_time_float_def float_floordiv_def float_mod_def int_of_float_def
  fmt02_def zfill_def str_nat.simps digit_char_def





lemma intro_end_302: "intro_end 302 = 2125136074165453 / 140737488355328"
  by (simp add: intro_end_def round64_eval)

lemma closing_start_302: "closing_start 302 = 2523599088071475 / 8796093022208"
  by (simp add: closing_start_def round64_eval)

lemma question_length_302: "question_length 302 2 = 1195389041718067 / 8796093022208"
  by (simp add: question_length_def intro_end_302 closing_start_302 round64_eval)

lemma q_start_302:
  "q_start 302 2 0 = 2125136074165453 / 140737488355328"
  "q_start 302 2 (Suc 0) = 5312840185413631 / 35184372088832"
  by (simp_all add: q_start_def intro_end_302 question_length_302 round64_eval)

lemma question_titles:
  "question_title 0 = ''Q1: Topic 1''" "question_title (Suc 0) = ''Q2: Topic 2''"
  "question_title 2 = ''Q3: Topic 3''"
  by (simp_all add: question_title_def py_str_def str_nat.simps digit_char_def)


lemma target_chapters_600: "target_chapters 600 = 10"
  by (simp add: target_chapters_def int_of_float_def round64_eval)

lemma chapter_length_600: "chapter_length 600 = 60"
  by (simp add: chapter_length_def target_chapters_600 round64_eval)


section \<open>Properties of the structured fallback\<close>

lemma structured_fallback_no_questions:
  "transcript \<noteq> [] \<Longrightarrow> create_fallback_structured_chapters transcript 0 = Inl ZeroDivisionError"
  by (simp add: create_fallback_structured_chapters_def)


text \<open>
  Rounding shows in the rendered seconds. For a duration of 302 seconds and two questions
  the second slice starts at the float just below 151, which renders as \<open>00:02:30\<close>.
\<close>

lemma structured_rounding_example:
  "create_fallback_structured_chapters
     [\<lparr>seg_start = 0, seg_text = ''hi''\<rparr>, \<lparr>seg_start = 302, seg_text = ''bye''\<rparr>] 2 =
     Inr [\<lparr>timestamp = Some ''00:00:00'', title = Some ''Introduction''\<rparr>,
          \<lparr>timestamp = Some ''00:00:15'', title = Some ''Q1: Topic 1''\<rparr>,
          \<lparr>timestamp = Some ''00:02:30'', title = Some ''Q2: Topic 2''\<rparr>,
          \<lparr>timestamp = Some ''00:04:46'', title = Some ''Closing Remarks''\<rparr>]"
proof -
  have u: "[0..<2] = [0, Suc 0]" by code_simp
  have f: "format_time_float (2125136074165453 / 140737488355328) = ''00:00:15''"
    "format_time_float (5312840185413631 / 35184372088832) = ''00:02:30''"
    "format_time_float (2523599088071475 / 8796093022208) = ''00:04:46''"
    by (simp_all add: format_eval)
  show ?thesis
    by (simp add: create_fallback_structured_chapters_def u q_start_302 closing_start_302 f
        question_titles)
qed




section \<open>The order and the origin of the chapter times\<close>


lemma snap_loop_empty: "snap_loop [] chs = (if chs = [] then Inr [] else Inl IndexError)"
  by (cases chs) (simp_all add: snap_candidate_def snap_time_def)

lemma remove_seen_subset: "set (remove_seen seen xs) \<subseteq> set xs"
  by (induction seen xs rule: remove_seen.induct) auto







lemma min_by_key_least: "x \<in> set (b # xs) \<Longrightarrow> key (min_by_key key b xs) \<le> key x"
proof (induction xs arbitrary: b x)
  case Nil
  then show ?case by simp
next
  case (Cons y ys)
  let ?b = "if key y < key b then y else b"
  have k: "key (min_by_key key ?b ys) \<le> key ?b"
    using Cons.IH [where x = ?b and b = ?b] by simp
  from Cons.prems consider "x = b" | "x = y" | "x \<in> set ys" by auto
  then show ?case
  proof cases
    case 1
    with k show ?thesis by (auto split: if_splits)
  next
    case 2
    with k show ?thesis by (auto split: if_splits)
  next
    case 3
    then show ?thesis using Cons.IH [where x = x and b = ?b] by simp
  qed
qed


lemma closest_entries_empty: "closest_entries [] len is = (if is = [] then Inr [] else Inl ValueError)"
  by (cases "is") (simp_all add: closest_entry_def)




lemma closest_entry_least:
  assumes "closest_entry transcript chapter_time = Inr c" and "x \<in> set transcript"
  shows "\<bar>round64 (seg_start c - chapter_time)\<bar> \<le> \<bar>round64 (seg_start x - chapter_time)\<bar>"
proof -
  from assms(2) obtain e es where tr: "transcript = e # es" by (cases transcript) auto
  with assms(1) have "c = min_by_key (\<lambda>x. \<bar>round64 (seg_start x - chapter_time)\<bar>) e es"
    by (simp add: closest_entry_def)
  with assms(2) tr show ?thesis
    using min_by_key_least [of x e es "\<lambda>x. \<bar>round64 (seg_start x - chapter_time)\<bar>"] by simp
qed

text \<open>
  A duration of 3970 seconds gives 22 chapters; the eleventh chapter time is the float
  just above 1985, so of the segments at 1984 and 1986 the later one is the closest.
\<close>

lemma time_based_rounding_example:
  "target_chapters 3970 = 22 \<and>
   round64 (real 11 * chapter_length 3970) = 1985 + 1 / 2 ^ 42 \<and>
   closest_entry [\<lparr>seg_start = 1984, seg_text = ''a''\<rparr>, \<lparr>seg_start = 1986, seg_text = ''b''\<rparr>]
     (round64 (real 11 * chapter_length 3970)) = Inr \<lparr>seg_start = 1986, seg_text = ''b''\<rparr>"
proof -
  have t: "target_chapters 3970 = 22"
    by (simp add: target_chapters_def int_of_float_def round64_eval)
  have l: "chapter_length 3970 = 6349179872393775 / 35184372088832"
    by (simp add: chapter_length_def t round64_eval)
  have c: "round64 (11 * chapter_length 3970) = 8730122324541441 / 4398046511104"
    by (simp add: l round64_eval)
  have k: "round64 (4398046511103 / 4398046511104) = 4398046511103 / 4398046511104"
    "round64 (- (4398046511105 / 4398046511104)) = - (4398046511105 / 4398046511104)"
    by (simp_all add: round64_eval)
  show ?thesis
    by (simp add: t c k closest_entry_def)
qed
text \<open>
  The chapter times of the flat fallback need not be in order. With segments at
  \<open>60 - 2 ^ -47\<close> and at 60 seconds and a duration of 600 seconds, the two rounded distances
  to the third chapter time, 180 seconds, are both 120: the tie goes to the earlier
  segment, after the second chapter was put at the later one.
\<close>

lemma time_based_order_example:
  "chapter_length 600 = 60 \<and>
   closest_entry [\<lparr>seg_start = 60 - 1 / 2 ^ 47, seg_text = ''a''\<rparr>, \<lparr>seg_start = 60, seg_text = ''b''\<rparr>]
     (round64 (real 2 * chapter_length 600)) = Inr \<lparr>seg_start = 60, seg_text = ''b''\<rparr> \<and>
   closest_entry [\<lparr>seg_start = 60 - 1 / 2 ^ 47, seg_text = ''a''\<rparr>, \<lparr>seg_start = 60, seg_text = ''b''\<rparr>]
     (round64 (real 3 * chapter_length 600)) = Inr \<lparr>seg_start = 60 - 1 / 2 ^ 47, seg_text = ''a''\<rparr>"
proof -
  have c: "round64 120 = 120" "round64 180 = 180"
    by (simp_all add: round64_eval)
  have k: "round64 (- 60) = - 60" "round64 (- 120) = - 120"
    "round64 (- (8444249301319681 / 140737488355328)) = - (8444249301319681 / 140737488355328)"
    "round64 (- (16888498602639361 / 140737488355328)) = - 120"
    by (simp_all add: round64_eval)
  show ?thesis
    by (simp add: chapter_length_600 c k closest_entry_def)
qed




section \<open>The pipelines when inference fails\<close>








end
